theory Spec2Isabelle
  imports Main "HOL-Library.Sublist" "HOL-Library.AList"
begin

section \<open>Python values used by \<^verbatim>\<open>main.py\<close>\<close>

text \<open>
  Strings are lists of characters.  The two patterns of the program only ever test a
  character for being a line feed, an ASCII digit or a given literal character.
\<close>

datatype error = KeyError string | TypeError | RecursionError

definition is_digit :: "char \<Rightarrow> bool" where
  "is_digit c = (c \<in> set ''0123456789'')"

definition not_newline :: "char \<Rightarrow> bool" where
  "not_newline c = (c \<noteq> CHR 0x0A)"

definition digit_val :: "char \<Rightarrow> int" where
  "digit_val c = int (of_char c) - 48"

text \<open>\<^verbatim>\<open>int(s)\<close> on a string of decimal digits.\<close>

definition py_int :: "string \<Rightarrow> int" where
  "py_int s = foldl (\<lambda>acc c. acc * 10 + digit_val c) 0 s"

text \<open>\<^verbatim>\<open>str(n)\<close> on an integer, as \<^verbatim>\<open>format\<close> and f-strings render it.\<close>

definition digit_char :: "nat \<Rightarrow> char" where
  "digit_char d = char_of (48 + d)"

function str_nat :: "nat \<Rightarrow> string" where
  "str_nat n = (if n < 10 then [digit_char n] else str_nat (n div 10) @ [digit_char (n mod 10)])"
  by pat_completeness auto
termination
  by (relation "measure id") auto

declare str_nat.simps [simp del]

definition py_str_int :: "int \<Rightarrow> string" where
  "py_str_int i = (if i < 0 then CHR ''-'' # str_nat (nat (- i)) else str_nat (nat i))"

text \<open>\<^verbatim>\<open>a in b\<close> on strings is the substring test.\<close>

definition py_in :: "string \<Rightarrow> string \<Rightarrow> bool" where
  "py_in a b = sublist a b"

section \<open>The fragment of \<^verbatim>\<open>re\<close> the two patterns use\<close>

text \<open>
  A backtracking matcher in the style of a list of successes: \<open>rmatch r st\<close> lists the
  states in which \<open>r\<close> can finish when started in \<open>st\<close>, in the order in which
  Python's engine tries them (greedy repetition tries the longest run first, an
  alternation its left branch first).  A state is the number of characters consumed so
  far, the rest of the subject, and the groups captured on the way (latest first).
  Only the repetitions \<^verbatim>\<open>.*\<close> and \<^verbatim>\<open>\d+\<close> occur, both over a
  single character class, so repetition is over a class.
\<close>

datatype cclass = AnyChar | Digit

fun in_class :: "cclass \<Rightarrow> char \<Rightarrow> bool" where
  "in_class AnyChar c = not_newline c"
| "in_class Digit c = is_digit c"

datatype regex =
    Bos
  | Eos
  | Lit string
  | Star cclass
  | Plus cclass
  | Seq regex regex
  | Alt regex regex
  | Grp nat regex

type_synonym mstate = "nat \<times> string \<times> (nat \<times> string) list"

fun rmatch :: "regex \<Rightarrow> mstate \<Rightarrow> mstate list" where
  "rmatch Bos (p, s, g) = (if p = 0 then [(p, s, g)] else [])"
| "rmatch Eos (p, s, g) = (if s = [] \<or> s = [CHR 0x0A] then [(p, s, g)] else [])"
| "rmatch (Lit l) (p, s, g) =
     (if prefix l s then [(p + length l, drop (length l) s, g)] else [])"
| "rmatch (Star c) (p, s, g) =
     map (\<lambda>k. (p + k, drop k s, g)) (rev [0 ..< Suc (length (takeWhile (in_class c) s))])"
| "rmatch (Plus c) (p, s, g) =
     map (\<lambda>k. (p + k, drop k s, g)) (rev [1 ..< Suc (length (takeWhile (in_class c) s))])"
| "rmatch (Seq a b) st = concat (map (rmatch b) (rmatch a st))"
| "rmatch (Alt a b) st = rmatch a st @ rmatch b st"
| "rmatch (Grp n a) (p, s, g) =
     map (\<lambda>(p', s', g'). (p', s', (n, take (p' - p) s) # g')) (rmatch a (p, s, g))"

text \<open>
  \<^verbatim>\<open>pattern.match(s)\<close>: the first success from position 0, or \<^verbatim>\<open>None\<close>.
  \<^verbatim>\<open>m.group(n)\<close> is \<^verbatim>\<open>None\<close> for a group that took no part in the match.
\<close>

definition re_match :: "regex \<Rightarrow> string \<Rightarrow> (nat \<times> string) list option" where
  "re_match r s = (case rmatch r (0, s, []) of [] \<Rightarrow> None | (p, s', g) # _ \<Rightarrow> Some g)"

definition group :: "(nat \<times> string) list \<Rightarrow> nat \<Rightarrow> string option" where
  "group g n = map_of g n"

section \<open>\<^verbatim>\<open>class Content\<close>\<close>

text \<open>
  \<^verbatim>\<open>YEARLESS_REGEX = re_compile(r'^(.*) \(\d+\)($| - (Season \d+)|(Specials))')\<close>

  \<^verbatim>\<open>SEASON_REGEX = re_compile(r'^.* - (?:Season (\d+)|(Specials))$')\<close>

  In the first pattern the alternation inside the second group has three branches:
  the end of the string, \<^verbatim>\<open> - (Season \d+)\<close>, and \<^verbatim>\<open>(Specials)\<close>.
\<close>

definition YEARLESS_REGEX :: regex where
  "YEARLESS_REGEX =
     Seq Bos (Seq (Grp 1 (Star AnyChar)) (Seq (Lit '' ('') (Seq (Plus Digit) (Seq (Lit '')'')
       (Grp 2 (Alt Eos (Alt (Seq (Lit '' - '') (Grp 3 (Seq (Lit ''Season '') (Plus Digit))))
                            (Grp 4 (Lit ''Specials'')))))))))"

definition SEASON_REGEX :: regex where
  "SEASON_REGEX =
     Seq Bos (Seq (Star AnyChar) (Seq (Lit '' - '')
       (Seq (Alt (Seq (Lit ''Season '') (Grp 1 (Plus Digit))) (Grp 2 (Lit ''Specials''))) Eos)))"

definition POSTER_URL :: "int \<Rightarrow> string" where
  "POSTER_URL pid = ''https://theposterdb.com/api/assets/'' @ py_str_int pid"

text \<open>
  An object of the class.  \<open>sub_content\<close> is a dict from season number to a
  \<^verbatim>\<open>Content\<close> object; objects are shared and mutated, so the dict holds the
  address of the child in the store.  A dict keeps its keys in insertion order.
\<close>

record Content =
  poster_id :: int
  content_type :: string
  title :: string
  use_year :: bool
  must_quote :: bool
  url :: string
  yearless_title :: string
  season_number :: "int option"
  sub_content :: "(int option \<times> nat) list"

text \<open>\<^verbatim>\<open>Content.__init__\<close>\<close>

definition Content_init :: "int \<Rightarrow> string \<Rightarrow> string \<Rightarrow> bool \<Rightarrow> Content" where
  "Content_init pid ctype ttl quote =
     (let yearless = (case re_match YEARLESS_REGEX ttl of
                        None \<Rightarrow> ttl
                      | Some g \<Rightarrow> the (group g 1));
          (ctype', season) = (case re_match SEASON_REGEX ttl of
                        None \<Rightarrow> (ctype, None)
                      | Some g \<Rightarrow>
                          (''Season'',
                           if group g 2 = Some ''Specials'' then Some 0
                           else Some (py_int (the (group g 1)))))
      in \<lparr> poster_id = pid, content_type = ctype', title = ttl, use_year = False,
           must_quote = (quote \<or> py_in '': '' ttl), url = POSTER_URL pid,
           yearless_title = yearless, season_number = season, sub_content = [] \<rparr>)"

text \<open>\<^verbatim>\<open>Content.final_title\<close>\<close>

definition dq :: string where
  "dq = [CHR 0x22]"

definition nl :: string where
  "nl = [CHR 0x0A]"

definition final_title :: "Content \<Rightarrow> string" where
  "final_title c =
     (let t = (if use_year c then title c else yearless_title c)
      in if must_quote c then dq @ t @ dq else t)"

text \<open>\<^verbatim>\<open>Content.is_sub_content_of\<close> and \<^verbatim>\<open>Content.is_parent_content_of\<close>\<close>

definition is_sub_content_of :: "Content \<Rightarrow> Content \<Rightarrow> bool" where
  "is_sub_content_of self c =
     (if content_type self \<noteq> ''Season'' \<or> content_type c \<noteq> ''Show'' then False
      else yearless_title c = yearless_title self \<and> py_in (title c) (title self))"

definition is_parent_content_of :: "Content \<Rightarrow> Content \<Rightarrow> bool" where
  "is_parent_content_of self c = is_sub_content_of c self"

text \<open>
  \<^verbatim>\<open>Content.add_sub_content\<close>: the object at address \<open>self\<close> stores a reference
  to the object at address \<open>child\<close> under the child's season number, replacing what the
  key held.
\<close>

definition add_sub_content :: "Content list \<Rightarrow> nat \<Rightarrow> nat \<Rightarrow> Content list" where
  "add_sub_content h self child =
     h[self := (h ! self)\<lparr>sub_content :=
         AList.update (season_number (h ! child)) child (sub_content (h ! self))\<rparr>]"

text \<open>
  \<^verbatim>\<open>Content.__str__\<close>.  The method calls itself on the children of a show, so
  the model counts the nesting depth; Python gives up with \<^verbatim>\<open>RecursionError\<close>
  when its limit is reached.  \<^verbatim>\<open>sorted\<close> compares the keys of the dict with
  \<^verbatim>\<open><\<close>, which raises \<^verbatim>\<open>TypeError\<close> between \<^verbatim>\<open>None\<close> and an integer.
\<close>

definition py_sorted :: "int option list \<Rightarrow> error + int option list" where
  "py_sorted ks =
     (if length ks \<le> 1 then Inr ks
      else if None \<in> set ks then Inl TypeError
      else Inr (map Some (sort (map the ks))))"

fun collect :: "(error + 'a) list \<Rightarrow> error + 'a list" where
  "collect [] = Inr []"
| "collect (Inl e # rs) = Inl e"
| "collect (Inr x # rs) = (case collect rs of Inl e \<Rightarrow> Inl e | Inr xs \<Rightarrow> Inr (x # xs))"

fun py_join :: "string \<Rightarrow> string list \<Rightarrow> string" where
  "py_join sep [] = []"
| "py_join sep [x] = x"
| "py_join sep (x # y # ys) = x @ sep @ py_join sep (y # ys)"

definition str_season_number :: "int option \<Rightarrow> string" where
  "str_season_number n = (case n of None \<Rightarrow> ''None'' | Some i \<Rightarrow> py_str_int i)"

fun str_content :: "nat \<Rightarrow> Content list \<Rightarrow> Content \<Rightarrow> error + string" where
  "str_content 0 h c = Inl RecursionError"
| "str_content (Suc n) h c =
     (if content_type c = ''Collection'' \<or> content_type c = ''Movie'' then
        Inr (final_title c @ '':'' @ nl @ ''  url_poster: '' @ url c)
      else if content_type c = ''Show'' then
        (let base = final_title c @ '':'' @ nl @ ''  url_poster: '' @ url c in
         if length (sub_content c) > 0 then
           (case py_sorted (map fst (sub_content c)) of
              Inl e \<Rightarrow> Inl e
            | Inr keys \<Rightarrow>
               (case collect (map (\<lambda>season.
                        str_content n h (h ! the (map_of (sub_content c) season))) keys) of
                  Inl e \<Rightarrow> Inl e
                | Inr subs \<Rightarrow>
                    Inr (base @ nl @ ''  seasons:'' @ nl @ ''    ''
                           @ py_join (nl @ ''    '') subs)))
         else Inr base)
      else if content_type c = ''Season'' then
        Inr (str_season_number (season_number c) @ '': '' @ ''{url_poster: '' @ url c @ ''}'')
      else
        Inr (''<Bad content type '' @ dq @ content_type c @ dq @ ''>''))"

section \<open>\<^verbatim>\<open>class ContentList\<close>\<close>

text \<open>
  The registry is the dict \<^verbatim>\<open>self.content\<close> from a type name to the list of the
  objects of that type, in insertion order; \<open>store\<close> holds the objects themselves,
  an object's address being its index.
\<close>

record ContentList =
  store :: "Content list"
  content :: "(string \<times> nat list) list"

definition ContentList_init :: ContentList where
  "ContentList_init =
     \<lparr> store = [],
       content = [(''Collection'', []), (''Movie'', []), (''Show'', []), (''Season'', [])] \<rparr>"

text \<open>The first loop of \<^verbatim>\<open>add_content\<close>, which leaves at the first show found.\<close>

fun attach_first :: "Content list \<Rightarrow> nat \<Rightarrow> nat list \<Rightarrow> Content list" where
  "attach_first h new [] = h"
| "attach_first h new (existing # rest) =
     (if is_sub_content_of (h ! new) (h ! existing) then add_sub_content h existing new
      else attach_first h new rest)"

text \<open>The second loop, which visits every season.\<close>

fun adopt :: "Content list \<Rightarrow> nat \<Rightarrow> nat list \<Rightarrow> Content list" where
  "adopt h new [] = h"
| "adopt h new (existing # rest) =
     adopt (if is_parent_content_of (h ! new) (h ! existing) then add_sub_content h new existing
            else h) new rest"

text \<open>The third loop, which leaves at the first record of the same title.\<close>

fun mark_collision :: "Content list \<Rightarrow> nat \<Rightarrow> nat list \<Rightarrow> Content list" where
  "mark_collision h new [] = h"
| "mark_collision h new (existing # rest) =
     (if title (h ! existing) = title (h ! new) then h[new := (h ! new)\<lparr>use_year := True\<rparr>]
      else mark_collision h new rest)"

text \<open>
  \<^verbatim>\<open>ContentList.add_content\<close>.  The argument is the object the caller has just
  constructed, which enters the store at the next free address.  A subscript of the
  dict with a key it does not have raises \<^verbatim>\<open>KeyError\<close>.
\<close>

definition dict_get :: "(string \<times> 'v) list \<Rightarrow> string \<Rightarrow> error + 'v" where
  "dict_get d k = (case map_of d k of None \<Rightarrow> Inl (KeyError k) | Some v \<Rightarrow> Inr v)"

definition add_content :: "ContentList \<Rightarrow> Content \<Rightarrow> error + ContentList" where
  "add_content self c =
     (let new = length (store self); h0 = store self @ [c] in
      case dict_get (content self) ''Show'' of
        Inl e \<Rightarrow> Inl e
      | Inr shows \<Rightarrow>
          (let h1 = attach_first h0 new shows in
           case dict_get (content self) ''Season'' of
             Inl e \<Rightarrow> Inl e
           | Inr seasons \<Rightarrow>
               (let h2 = adopt h1 new seasons in
                case dict_get (content self) (content_type (h2 ! new)) of
                  Inl e \<Rightarrow> Inl e
                | Inr same \<Rightarrow>
                    (let h3 = mark_collision h2 new same in
                     Inr \<lparr> store = h3,
                           content = AList.update (content_type (h3 ! new)) (same @ [new])
                                       (content self) \<rparr>))))"

text \<open>
  \<^verbatim>\<open>ContentList.print\<close>: the list of the strings handed to \<^verbatim>\<open>print\<close>, one
  per call.
\<close>

definition header :: "string \<Rightarrow> string" where
  "header ctype = ''# '' @ replicate 80 (CHR ''-'') @ nl @ ''# '' @ ctype @ ''s''"

fun print_groups :: "nat \<Rightarrow> Content list \<Rightarrow> (string \<times> nat list) list \<Rightarrow> error + string list" where
  "print_groups n h [] = Inr []"
| "print_groups n h ((ctype, content_list) # rest) =
     (if length content_list = 0 \<or> ctype = ''Season'' then print_groups n h rest
      else
        (case collect (map (\<lambda>a. str_content n h (h ! a)) content_list) of
           Inl e \<Rightarrow> Inl e
         | Inr blocks \<Rightarrow>
            (case print_groups n h rest of
               Inl e \<Rightarrow> Inl e
             | Inr later \<Rightarrow> Inr (header ctype # blocks @ later))))"

definition ContentList_print :: "nat \<Rightarrow> ContentList \<Rightarrow> error + string list" where
  "ContentList_print n self = print_groups n (store self) (content self)"

text \<open>
  The loop of the entry point: one \<^verbatim>\<open>Content\<close> per poster element, in document
  order, each added to the registry.
\<close>

type_synonym poster = "int \<times> string \<times> string"

fun add_all :: "bool \<Rightarrow> ContentList \<Rightarrow> poster list \<Rightarrow> error + ContentList" where
  "add_all always_quote self [] = Inr self"
| "add_all always_quote self ((pid, ctype, ttl) # rest) =
     (case add_content self (Content_init pid ctype ttl always_quote) of
        Inl e \<Rightarrow> Inl e
      | Inr self' \<Rightarrow> add_all always_quote self' rest)"

definition run :: "bool \<Rightarrow> poster list \<Rightarrow> error + ContentList" where
  "run always_quote posters = add_all always_quote ContentList_init posters"

section \<open>Invariants of the registry\<close>

text \<open>
  The fields of an object that no method assigns after \<^verbatim>\<open>__init__\<close>: all but
  \<open>use_year\<close> and \<open>sub_content\<close>.
\<close>

definition imm :: "Content \<Rightarrow> int \<times> string \<times> string \<times> bool \<times> string \<times> string \<times> int option" where
  "imm c = (poster_id c, content_type c, title c, must_quote c, url c, yearless_title c,
            season_number c)"

text \<open>
  The keys of \<^verbatim>\<open>self.content\<close>, and the addresses of the objects of one type, in
  the order of their arrival.  In a registry built by \<^verbatim>\<open>add_content\<close> the list
  under a key is exactly that.
\<close>

definition known_types :: "string list" where
  "known_types = [''Collection'', ''Movie'', ''Show'', ''Season'']"

definition bucket_of :: "Content list \<Rightarrow> string \<Rightarrow> nat list" where
  "bucket_of h k = filter (\<lambda>i. content_type (h ! i) = k) [0 ..< length h]"

definition buckets_ok :: "ContentList \<Rightarrow> bool" where
  "buckets_ok st = (content st = map (\<lambda>k. (k, bucket_of (store st) k)) known_types)"

text \<open>The store after \<^verbatim>\<open>add_content\<close>, as the three loops leave it.\<close>

definition step_store :: "Content list \<Rightarrow> Content \<Rightarrow> Content list" where
  "step_store h c =
     mark_collision
       (adopt (attach_first (h @ [c]) (length h) (bucket_of h ''Show''))
              (length h) (bucket_of h ''Season''))
       (length h) (bucket_of h (content_type c))"

text \<open>
  The children of an object: one per key, each a season whose number is its key, and only
  a show has any.
\<close>

definition kid_ok :: "Content list \<Rightarrow> Content \<Rightarrow> bool" where
  "kid_ok h c =
     (distinct (map fst (sub_content c)) \<and>
      (\<forall>(k, b) \<in> set (sub_content c).
          b < length h \<and> content_type c = ''Show'' \<and> content_type (h ! b) = ''Season''
          \<and> season_number (h ! b) = k))"

definition kids_ok :: "Content list \<Rightarrow> bool" where
  "kids_ok h = (\<forall>c \<in> set h. kid_ok h c)"

text \<open>
  The flag \<open>use_year\<close> of an object: set exactly when an earlier object of the same
  type has the same raw title.
\<close>

definition uy_ok :: "Content list \<Rightarrow> bool" where
  "uy_ok h = (\<forall>i < length h. use_year (h ! i) =
      (\<exists>j < i. content_type (h ! j) = content_type (h ! i) \<and> title (h ! j) = title (h ! i)))"

text \<open>The object the entry point constructs for a poster element.\<close>

definition mk :: "bool \<Rightarrow> poster \<Rightarrow> Content" where
  "mk q p = (case p of (pid, ctype, ttl) \<Rightarrow> Content_init pid ctype ttl q)"

definition inv :: "ContentList \<Rightarrow> bool" where
  "inv st = (buckets_ok st \<and> kids_ok (store st) \<and> uy_ok (store st))"






section \<open>Preservation of the invariants\<close>

lemma imm_eq_iff:
  "imm a = imm b \<longleftrightarrow>
     poster_id a = poster_id b \<and> content_type a = content_type b \<and> title a = title b
     \<and> must_quote a = must_quote b \<and> url a = url b \<and> yearless_title a = yearless_title b
     \<and> season_number a = season_number b"
  by (simp add: imm_def)

lemma map_list_update_same:
  "map f (h[k := y]) = map f h" if "f y = f (h ! k)"
proof (cases "k < length h")
  case True
  then show ?thesis using that by (simp add: map_update list_update_same_conv)
next
  case False
  then have "h[k := y] = h" by (simp add: list_update_beyond)
  then show ?thesis by simp
qed

lemma map_imm_list_update:
  "imm y = imm (h ! k) \<Longrightarrow> map imm (h[k := y]) = map imm h"
  by (rule map_list_update_same)

lemma map_imm_nth:
  "map imm h' = map imm h \<Longrightarrow> i < length h \<Longrightarrow> imm (h' ! i) = imm (h ! i)"
  by (metis length_map nth_map)

lemma length_add_sub_content [simp]: "length (add_sub_content h a b) = length h"
  by (simp add: add_sub_content_def)

lemma map_imm_add_sub_content [simp]: "map imm (add_sub_content h a b) = map imm h"
  by (simp add: add_sub_content_def map_imm_list_update imm_def)

lemma map_use_year_add_sub_content [simp]:
  "map use_year (add_sub_content h a b) = map use_year h"
  by (simp add: add_sub_content_def map_list_update_same)

lemma length_attach_first [simp]: "length (attach_first h n es) = length h"
  by (induction es) auto

lemma length_adopt [simp]: "length (adopt h n es) = length h"
  by (induction es arbitrary: h) auto

lemma length_mark_collision [simp]: "length (mark_collision h n es) = length h"
  by (induction es) auto

lemma map_imm_attach_first [simp]: "map imm (attach_first h n es) = map imm h"
  by (induction es) auto

lemma map_imm_adopt [simp]: "map imm (adopt h n es) = map imm h"
  by (induction es arbitrary: h) auto

lemma map_imm_mark_collision [simp]: "map imm (mark_collision h n es) = map imm h"
  by (induction es) (simp_all add: map_imm_list_update imm_eq_iff)

lemma map_use_year_attach_first [simp]: "map use_year (attach_first h n es) = map use_year h"
  by (induction es) auto

lemma map_use_year_adopt [simp]: "map use_year (adopt h n es) = map use_year h"
  by (induction es arbitrary: h) auto

lemma map_sub_content_mark_collision [simp]:
  "map sub_content (mark_collision h n es) = map sub_content h"
  by (induction es) (simp_all add: map_list_update_same)

lemma mark_collision_other:
  "i \<noteq> n \<Longrightarrow> mark_collision h n es ! i = h ! i"
  by (induction es) simp_all

lemma use_year_mark_collision:
  "n < length h \<Longrightarrow>
     use_year (mark_collision h n es ! n) =
       (use_year (h ! n) \<or> (\<exists>e \<in> set es. title (h ! e) = title (h ! n)))"
  by (induction es) auto

lemma adopt_other:
  "i \<noteq> n \<Longrightarrow> adopt h n es ! i = h ! i"
  by (induction es arbitrary: h) (simp_all add: add_sub_content_def)

lemma bucket_of_cong:
  assumes "map imm h' = map imm h"
  shows "bucket_of h' k = bucket_of h k"
proof -
  have l: "length h' = length h" using assms by (metis length_map)
  have "\<And>i. i < length h \<Longrightarrow> content_type (h' ! i) = content_type (h ! i)"
    using map_imm_nth [OF assms] by (simp add: imm_eq_iff)
  then show ?thesis unfolding bucket_of_def l
    by (intro filter_cong) auto
qed

lemma bucket_of_snoc:
  "bucket_of (h @ [c]) k = bucket_of h k @ (if content_type c = k then [length h] else [])"
proof -
  have "filter (\<lambda>i. content_type ((h @ [c]) ! i) = k) [0 ..< length h]
        = filter (\<lambda>i. content_type (h ! i) = k) [0 ..< length h]"
    by (intro filter_cong) (auto simp: nth_append)
  then show ?thesis by (simp add: bucket_of_def)
qed

lemma set_bucket_of:
  "set (bucket_of h k) = {i. i < length h \<and> content_type (h ! i) = k}"
  by (auto simp: bucket_of_def)

lemma map_imm_step_store [simp]: "map imm (step_store h c) = map imm h @ [imm c]"
  by (simp add: step_store_def)

lemma length_step_store [simp]: "length (step_store h c) = Suc (length h)"
  by (simp add: step_store_def)

lemma content_type_new:
  "content_type (adopt (attach_first (h @ [c]) (length h) xs) (length h) ys ! length h)
     = content_type c"
proof -
  let ?h2 = "adopt (attach_first (h @ [c]) (length h) xs) (length h) ys"
  have "map imm ?h2 = map imm (h @ [c])" by simp
  from map_imm_nth [OF this, of "length h"] show ?thesis by (simp add: imm_eq_iff)
qed

lemma content_type_new3:
  "content_type (mark_collision (adopt (attach_first (h @ [c]) (length h) xs) (length h) ys)
                   (length h) zs ! length h) = content_type c"
proof -
  let ?h3 = "mark_collision (adopt (attach_first (h @ [c]) (length h) xs) (length h) ys) (length h) zs"
  have "map imm ?h3 = map imm (h @ [c])" by simp
  from map_imm_nth [OF this, of "length h"] show ?thesis by (simp add: imm_eq_iff)
qed

lemma bucket_of_new3:
  "bucket_of (mark_collision (adopt (attach_first (h @ [c]) (length h) xs) (length h) ys)
                   (length h) zs) k
     = bucket_of h k @ (if content_type c = k then [length h] else [])"
proof -
  let ?h3 = "mark_collision (adopt (attach_first (h @ [c]) (length h) xs) (length h) ys) (length h) zs"
  have "map imm ?h3 = map imm (h @ [c])" by simp
  from bucket_of_cong [OF this] show ?thesis by (simp add: bucket_of_snoc)
qed

lemma add_content_known:
  assumes "buckets_ok st" and "content_type c \<in> set known_types"
  shows "add_content st c =
           Inr \<lparr> store = step_store (store st) c,
                 content = map (\<lambda>k. (k, bucket_of (step_store (store st) c) k)) known_types \<rparr>"
proof -
  from assms(2) consider "content_type c = ''Collection''" | "content_type c = ''Movie''"
    | "content_type c = ''Show''" | "content_type c = ''Season''"
    by (auto simp: known_types_def)
  then show ?thesis
  proof cases
    case 1
    then show ?thesis using assms(1)
      by (simp add: add_content_def buckets_ok_def known_types_def dict_get_def Let_def
          content_type_new content_type_new3 bucket_of_new3 step_store_def)
  next
    case 2
    then show ?thesis using assms(1)
      by (simp add: add_content_def buckets_ok_def known_types_def dict_get_def Let_def
          content_type_new content_type_new3 bucket_of_new3 step_store_def)
  next
    case 3
    then show ?thesis using assms(1)
      by (simp add: add_content_def buckets_ok_def known_types_def dict_get_def Let_def
          content_type_new content_type_new3 bucket_of_new3 step_store_def)
  next
    case 4
    then show ?thesis using assms(1)
      by (simp add: add_content_def buckets_ok_def known_types_def dict_get_def Let_def
          content_type_new content_type_new3 bucket_of_new3 step_store_def)
  qed
qed

lemma add_content_unknown:
  assumes "buckets_ok st" and "content_type c \<notin> set known_types"
  shows "add_content st c = Inl (KeyError (content_type c))"
  using assms
  by (simp add: add_content_def buckets_ok_def known_types_def dict_get_def Let_def
          content_type_new)

lemma set_alist_update: "set (AList.update k v al) \<subseteq> insert (k, v) (set al)"
  by (induction al) auto

lemma kid_ok_cong:
  assumes "map imm h' = map imm h"
  shows "kid_ok h' c = kid_ok h c"
proof -
  have l: "length h' = length h" using assms by (metis length_map)
  have "\<And>b. b < length h \<Longrightarrow> content_type (h' ! b) = content_type (h ! b)
               \<and> season_number (h' ! b) = season_number (h ! b)"
    using map_imm_nth [OF assms] by (simp add: imm_eq_iff)
  then show ?thesis unfolding kid_ok_def l by auto
qed

lemma kids_ok_update:
  assumes "kids_ok h" and "imm y = imm (h ! k)" and "kid_ok h y"
  shows "kids_ok (h[k := y])"
proof -
  have m: "map imm (h[k := y]) = map imm h" using assms(2) by (rule map_imm_list_update)
  show ?thesis unfolding kids_ok_def
  proof
    fix c assume "c \<in> set (h[k := y])"
    then have "c = y \<or> c \<in> set h" using set_update_subset_insert [of h k y] by auto
    then have "kid_ok h c" using assms(1,3) by (auto simp: kids_ok_def)
    then show "kid_ok (h[k := y]) c" by (simp add: kid_ok_cong [OF m])
  qed
qed

lemma kids_ok_add_sub_content:
  assumes "kids_ok h" and "p < length h" and "a < length h" and "is_sub_content_of (h ! a) (h ! p)"
  shows "kids_ok (add_sub_content h p a)"
  unfolding add_sub_content_def
proof (rule kids_ok_update [OF assms(1)])
  let ?y = "(h ! p)\<lparr>sub_content := AList.update (season_number (h ! a)) a (sub_content (h ! p))\<rparr>"
  show "imm ?y = imm (h ! p)" by (simp add: imm_eq_iff)
  have old: "kid_ok h (h ! p)" using assms(1,2) by (simp add: kids_ok_def)
  have t: "content_type (h ! p) = ''Show''" "content_type (h ! a) = ''Season''"
    using assms(4) by (auto simp: is_sub_content_of_def split: if_splits)
  show "kid_ok h ?y"
    unfolding kid_ok_def
  proof (intro conjI ballI)
    show "distinct (map fst (sub_content ?y))" using old by (simp add: kid_ok_def distinct_update)
  next
    fix x assume "x \<in> set (sub_content ?y)"
    then have "x = (season_number (h ! a), a) \<or> x \<in> set (sub_content (h ! p))"
      using set_alist_update [of "season_number (h ! a)" a "sub_content (h ! p)"] by auto
    then show "case x of (k, b) \<Rightarrow> b < length h \<and> content_type ?y = ''Show''
         \<and> content_type (h ! b) = ''Season'' \<and> season_number (h ! b) = k"
      using old t assms(3) by (auto simp: kid_ok_def)
  qed
qed

lemma kids_ok_attach_first:
  "kids_ok h \<Longrightarrow> n < length h \<Longrightarrow> \<forall>e \<in> set es. e < length h \<Longrightarrow> kids_ok (attach_first h n es)"
  by (induction es) (auto simp: kids_ok_add_sub_content)

lemma kids_ok_adopt:
  "kids_ok h \<Longrightarrow> n < length h \<Longrightarrow> \<forall>e \<in> set es. e < length h \<Longrightarrow> kids_ok (adopt h n es)"
  by (induction es arbitrary: h) (auto simp: kids_ok_add_sub_content is_parent_content_of_def)

lemma kids_ok_mark_collision:
  assumes "kids_ok h" and "n < length h"
  shows "kids_ok (mark_collision h n es)"
proof (induction es)
  case Nil
  show ?case using assms(1) by simp
next
  case (Cons e es)
  have "kid_ok h (h ! n)" using assms by (simp add: kids_ok_def)
  then have "kid_ok h ((h ! n)\<lparr>use_year := True\<rparr>)" by (simp add: kid_ok_def)
  then have "kids_ok (h[n := (h ! n)\<lparr>use_year := True\<rparr>])"
    by (intro kids_ok_update [OF assms(1)]) (simp_all add: imm_eq_iff)
  then show ?case using Cons by simp
qed

lemma kids_ok_snoc:
  assumes "kids_ok h" and "sub_content c = []"
  shows "kids_ok (h @ [c])"
  unfolding kids_ok_def
proof
  fix x assume "x \<in> set (h @ [c])"
  then consider "x = c" | "x \<in> set h" by auto
  then show "kid_ok (h @ [c]) x"
  proof cases
    case 1
    then show ?thesis using assms(2) by (simp add: kid_ok_def)
  next
    case 2
    then have "kid_ok h x" using assms(1) by (simp add: kids_ok_def)
    then show ?thesis by (auto simp: kid_ok_def nth_append)
  qed
qed

lemma kids_ok_step_store:
  assumes "kids_ok h" and "sub_content c = []"
  shows "kids_ok (step_store h c)"
  unfolding step_store_def
  by (intro kids_ok_mark_collision kids_ok_adopt kids_ok_attach_first kids_ok_snoc assms)
     (auto simp: set_bucket_of)

lemma nth_of_map_eq: "map f h' = map f h \<Longrightarrow> i < length h \<Longrightarrow> f (h' ! i) = f (h ! i)"
  by (metis length_map nth_map)

lemma step_store_old:
  assumes "i < length h"
  shows "imm (step_store h c ! i) = imm (h ! i)"
    and "use_year (step_store h c ! i) = use_year (h ! i)"
proof -
  have "map imm (step_store h c) = map imm (h @ [c])" by simp
  from nth_of_map_eq [OF this, of i] assms show "imm (step_store h c ! i) = imm (h ! i)"
    by (simp add: nth_append)
  let ?h2 = "adopt (attach_first (h @ [c]) (length h) (bucket_of h ''Show''))
              (length h) (bucket_of h ''Season'')"
  have "step_store h c ! i = ?h2 ! i" using assms
    by (simp add: step_store_def mark_collision_other)
  moreover have "map use_year ?h2 = map use_year (h @ [c])" by simp
  from nth_of_map_eq [OF this, of i] assms have "use_year (?h2 ! i) = use_year (h ! i)"
    by (simp add: nth_append)
  ultimately show "use_year (step_store h c ! i) = use_year (h ! i)" by simp
qed

lemma step_store_new:
  shows "imm (step_store h c ! length h) = imm c"
    and "use_year (step_store h c ! length h) =
           (use_year c \<or> (\<exists>e < length h. content_type (h ! e) = content_type c \<and> title (h ! e) = title c))"
proof -
  have m: "map imm (step_store h c) = map imm (h @ [c])" by simp
  from nth_of_map_eq [OF this, of "length h"] show "imm (step_store h c ! length h) = imm c"
    by simp
  let ?h2 = "adopt (attach_first (h @ [c]) (length h) (bucket_of h ''Show''))
              (length h) (bucket_of h ''Season'')"
  have m2: "map imm ?h2 = map imm (h @ [c])" by simp
  have t: "\<And>e. e \<le> length h \<Longrightarrow> title (?h2 ! e) = title ((h @ [c]) ! e)"
    using nth_of_map_eq [OF m2] by (simp add: imm_eq_iff)
  have u: "map use_year ?h2 = map use_year (h @ [c])" by simp
  from nth_of_map_eq [OF this, of "length h"] have u2: "use_year (?h2 ! length h) = use_year c"
    by simp
  have "use_year (step_store h c ! length h) =
       (use_year (?h2 ! length h) \<or> (\<exists>e \<in> set (bucket_of h (content_type c)). title (?h2 ! e) = title (?h2 ! length h)))"
    unfolding step_store_def by (rule use_year_mark_collision) simp
  also have "\<dots> = (use_year c \<or> (\<exists>e < length h. content_type (h ! e) = content_type c \<and> title (h ! e) = title c))"
    using t u2 by (auto simp: set_bucket_of nth_append)
  finally show "use_year (step_store h c ! length h) =
           (use_year c \<or> (\<exists>e < length h. content_type (h ! e) = content_type c \<and> title (h ! e) = title c))" .
qed

lemma uy_ok_step_store:
  assumes "uy_ok h" and "\<not> use_year c"
  shows "uy_ok (step_store h c)"
  unfolding uy_ok_def
proof (intro allI impI)
  fix i assume "i < length (step_store h c)"
  then consider "i < length h" | "i = length h" by fastforce
  then show "use_year (step_store h c ! i) =
      (\<exists>j<i. content_type (step_store h c ! j) = content_type (step_store h c ! i)
             \<and> title (step_store h c ! j) = title (step_store h c ! i))"
  proof cases
    case 1
    then have "\<And>j. j \<le> i \<Longrightarrow> imm (step_store h c ! j) = imm (h ! j)"
      by (simp add: step_store_old)
    then have "\<And>j. j \<le> i \<Longrightarrow> content_type (step_store h c ! j) = content_type (h ! j)
        \<and> title (step_store h c ! j) = title (h ! j)"
      by (simp add: imm_eq_iff)
    then have "(\<exists>j<i. content_type (step_store h c ! j) = content_type (step_store h c ! i)
             \<and> title (step_store h c ! j) = title (step_store h c ! i))
        = (\<exists>j<i. content_type (h ! j) = content_type (h ! i) \<and> title (h ! j) = title (h ! i))"
      by (metis less_imp_le_nat order_refl)
    then show ?thesis using assms(1) 1 by (simp add: uy_ok_def step_store_old)
  next
    case 2
    have "\<And>j. j < length h \<Longrightarrow> content_type (step_store h c ! j) = content_type (h ! j)
        \<and> title (step_store h c ! j) = title (h ! j)"
      using step_store_old(1) by (simp add: imm_eq_iff)
    moreover have "content_type (step_store h c ! length h) = content_type c
        \<and> title (step_store h c ! length h) = title c"
      using step_store_new(1) [of h c] by (simp add: imm_eq_iff)
    ultimately show ?thesis using assms(2) 2 by (auto simp: step_store_new(2))
  qed
qed

lemma mk_fresh [simp]: "sub_content (mk q p) = []" "\<not> use_year (mk q p)"
  by (auto simp: mk_def Content_init_def Let_def split: prod.splits)

lemma inv_init: "inv ContentList_init"
  by (simp add: inv_def buckets_ok_def ContentList_init_def known_types_def bucket_of_def
      kids_ok_def uy_ok_def)

lemma add_content_inv:
  assumes "inv st" and "add_content st (mk q p) = Inr st'"
  shows "inv st'" and "store st' = step_store (store st) (mk q p)"
    and "content_type (mk q p) \<in> set known_types"
proof -
  show k: "content_type (mk q p) \<in> set known_types"
    using assms add_content_unknown [of st "mk q p"] by (auto simp: inv_def)
  from add_content_known [OF _ k, of st] assms
  have st': "st' = \<lparr> store = step_store (store st) (mk q p),
                 content = map (\<lambda>k. (k, bucket_of (step_store (store st) (mk q p)) k)) known_types \<rparr>"
    by (simp add: inv_def)
  then show "store st' = step_store (store st) (mk q p)" by simp
  show "inv st'" using assms(1)
    by (simp add: st' inv_def buckets_ok_def kids_ok_step_store uy_ok_step_store)
qed

lemma add_all_inv:
  "inv st \<Longrightarrow> add_all q st ps = Inr st' \<Longrightarrow>
     inv st' \<and> map imm (store st') = map imm (store st) @ map (imm \<circ> mk q) ps
     \<and> (\<forall>p \<in> set ps. content_type (mk q p) \<in> set known_types)"
proof (induction ps arbitrary: st)
  case Nil
  then show ?case by simp
next
  case (Cons p ps)
  obtain pid ctype ttl where p: "p = (pid, ctype, ttl)" by (cases p) auto
  from Cons.prems(2) p obtain st1 where
    a: "add_content st (mk q p) = Inr st1" and r: "add_all q st1 ps = Inr st'"
    by (auto simp: mk_def split: sum.splits)
  note s = add_content_inv [OF Cons.prems(1) a]
  from Cons.IH [OF s(1) r] show ?case by (simp add: s(2,3))
qed

lemma run_inv:
  assumes "run q ps = Inr st"
  shows "inv st" and "map imm (store st) = map (imm \<circ> mk q) ps"
    and "\<forall>p \<in> set ps. content_type (mk q p) \<in> set known_types"
  using add_all_inv [OF inv_init, of q ps st] assms
  by (simp_all add: run_def ContentList_init_def)

lemma run_nth:
  assumes "run q ps = Inr st" and "i < length ps"
  shows "imm (store st ! i) = imm (mk q (ps ! i))" and "length (store st) = length ps"
proof -
  have m: "map imm (store st) = map (imm \<circ> mk q) ps" by (rule run_inv [OF assms(1)])
  then show l: "length (store st) = length ps" by (metis length_map)
  from m have "map imm (store st) ! i = map (imm \<circ> mk q) ps ! i" by simp
  then show "imm (store st ! i) = imm (mk q (ps ! i))" using assms(2) l by simp
qed

lemma add_all_total:
  "inv st \<Longrightarrow> \<forall>p \<in> set ps. content_type (mk q p) \<in> set known_types \<Longrightarrow>
     \<exists>st'. add_all q st ps = Inr st'"
proof (induction ps arbitrary: st)
  case Nil
  then show ?case by simp
next
  case (Cons p ps)
  obtain pid ctype ttl where p: "p = (pid, ctype, ttl)" by (cases p) auto
  from Cons.prems have k: "content_type (mk q p) \<in> set known_types" by simp
  from add_content_known [OF _ k, of st] Cons.prems(1) obtain st1 where
    a: "add_content st (mk q p) = Inr st1" by (auto simp: inv_def)
  from add_content_inv(1) [OF Cons.prems(1) a] Cons.IH [of st1] Cons.prems(2)
  obtain st' where "add_all q st1 ps = Inr st'" by auto
  then show ?case using a p by (auto simp: mk_def)
qed

lemma mk_title: "title (mk q p) = snd (snd p)"
  by (cases p) (simp add: mk_def Content_init_def Let_def split: prod.splits)

lemma mk_must_quote: "must_quote (mk q p) = (q \<or> py_in '': '' (snd (snd p)))"
  by (cases p) (simp add: mk_def Content_init_def Let_def split: prod.splits)

lemma run_title:
  assumes "run q ps = Inr st" and "i < length ps"
  shows "title (store st ! i) = snd (snd (ps ! i))"
  using run_nth(1) [OF assms] by (simp add: imm_eq_iff mk_title)

lemma run_buckets:
  assumes "run q ps = Inr st" and "i < length ps"
  shows "dict_get (content st) (content_type (store st ! i))
           = Inr (filter (\<lambda>j. content_type (store st ! j) = content_type (store st ! i)) [0 ..< length ps])"
proof -
  have l: "length (store st) = length ps" by (rule run_nth(2) [OF assms])
  have b: "content st = map (\<lambda>k. (k, bucket_of (store st) k)) known_types"
    using run_inv(1) [OF assms(1)] by (simp add: inv_def buckets_ok_def)
  have "imm (store st ! i) = imm (mk q (ps ! i))" by (rule run_nth(1) [OF assms])
  then have "content_type (store st ! i) = content_type (mk q (ps ! i))" by (simp add: imm_eq_iff)
  then have k: "content_type (store st ! i) \<in> set known_types"
    using run_inv(3) [OF assms(1)] assms(2) by simp
  show ?thesis using k unfolding b l [symmetric]
    by (auto simp: dict_get_def known_types_def bucket_of_def)
qed

lemma prefix_str_content:
  assumes "str_content n h c = Inr s"
    and "content_type c = ''Collection'' \<or> content_type c = ''Movie'' \<or> content_type c = ''Show''"
  shows "prefix (final_title c @ '':'' @ nl) s"
proof (cases n)
  case 0
  then show ?thesis using assms by simp
next
  case (Suc m)
  then show ?thesis using assms
    by (auto simp: Let_def split: if_splits sum.splits)
qed

section \<open>Children of a show and rendering\<close>

lemma add_sub_content_twice:
  assumes "p \<noteq> a" and "season_number (h ! a) = season_number (h ! b)"
  shows "add_sub_content (add_sub_content h p b) p a = add_sub_content h p a"
proof (cases "p < length h")
  case True
  then show ?thesis using assms by (simp add: add_sub_content_def)
next
  case False
  then show ?thesis by (simp add: add_sub_content_def list_update_beyond)
qed

lemma add_sub_content_lookup:
  assumes "p < length h"
  shows "map_of (sub_content (add_sub_content h p a ! p)) (season_number (h ! a)) = Some a"
  using assms by (simp add: add_sub_content_def update_conv')

lemma run_kid_ok:
  assumes "run q ps = Inr st" and "i < length ps"
  shows "kid_ok (store st) (store st ! i)"
proof -
  have "kids_ok (store st)" using run_inv(1) [OF assms(1)] by (simp add: inv_def)
  moreover have "store st ! i \<in> set (store st)" using run_nth(2) [OF assms] assms(2) by simp
  ultimately show ?thesis by (simp add: kids_ok_def)
qed

lemma py_sorted_Some:
  assumes "None \<notin> set ks"
  shows "py_sorted ks = Inr (map Some (sort (map the ks)))"
proof (cases ks)
  case Nil
  then show ?thesis by (simp add: py_sorted_def)
next
  case (Cons x xs)
  note c = this
  show ?thesis
  proof (cases xs)
    case Nil
    then show ?thesis using c assms by (cases x) (simp_all add: py_sorted_def)
  next
    case (Cons y ys)
    then show ?thesis using c assms by (simp add: py_sorted_def)
  qed
qed

lemma collect_map_Inr:
  "\<forall>x \<in> set xs. f x = Inr (g x) \<Longrightarrow> collect (map f xs) = Inr (map g xs)"
  by (induction xs) simp_all

lemma str_content_season:
  "content_type c = ''Season'' \<Longrightarrow>
     str_content (Suc n) h c =
       Inr (str_season_number (season_number c) @ '': '' @ ''{url_poster: '' @ url c @ ''}'')"
  by simp

lemma str_content_show_children:
  assumes "content_type c = ''Show''" and "sub_content c \<noteq> []"
    and "\<forall>(k, b) \<in> set (sub_content c).
            k \<noteq> None \<and> content_type (h ! b) = ''Season'' \<and> season_number (h ! b) = k"
  shows "str_content (Suc (Suc n)) h c =
     Inr (final_title c @ '':'' @ nl @ ''  url_poster: '' @ url c @ nl @ ''  seasons:'' @ nl
          @ ''    '' @ py_join (nl @ ''    '')
             (map (\<lambda>k. py_str_int k @ '': '' @ ''{url_poster: ''
                         @ url (h ! the (map_of (sub_content c) (Some k))) @ ''}'')
                  (sort (map (the \<circ> fst) (sub_content c)))))"
proof -
  let ?sc = "sub_content c"
  let ?ks = "sort (map (the \<circ> fst) ?sc)"
  let ?line = "\<lambda>k. py_str_int k @ '': '' @ ''{url_poster: ''
                         @ url (h ! the (map_of ?sc (Some k))) @ ''}''"
  have nn: "None \<notin> set (map fst ?sc)" using assms(3) by force
  have s: "py_sorted (map fst ?sc) = Inr (map Some ?ks)"
    using py_sorted_Some [OF nn] by (simp add: comp_def)
  have "\<forall>k \<in> set ?ks. str_content (Suc n) h (h ! the (map_of ?sc (Some k))) = Inr (?line k)"
  proof
    fix k assume "k \<in> set ?ks"
    then obtain x where x: "x \<in> set ?sc" and k: "k = the (fst x)" by auto
    obtain k' b0 where x2: "x = (k', b0)" by (cases x)
    with x assms(3) have "k' \<noteq> None" by auto
    with k x2 have "fst x = Some k" by auto
    with x have "Some k \<in> fst ` set ?sc" by force
    then obtain b where b: "map_of ?sc (Some k) = Some b"
      by (metis domD dom_map_of_conv_image_fst)
    then have "(Some k, b) \<in> set ?sc" by (rule map_of_SomeD)
    with assms(3) have "content_type (h ! b) = ''Season''" "season_number (h ! b) = Some k"
      by auto
    then show "str_content (Suc n) h (h ! the (map_of ?sc (Some k))) = Inr (?line k)"
      using b by (simp add: str_season_number_def)
  qed
  then have c: "collect (map (\<lambda>season. str_content (Suc n) h (h ! the (map_of ?sc season)))
                    (map Some ?ks)) = Inr (map ?line ?ks)"
    using collect_map_Inr [of ?ks "\<lambda>k. str_content (Suc n) h (h ! the (map_of ?sc (Some k)))" ?line]
    by (simp add: comp_def)
  show ?thesis
    using assms(1,2) s c by (simp add: Let_def)
qed

lemma mk_poster_id: "poster_id (mk q p) = fst p" "url (mk q p) = POSTER_URL (fst p)"
  by (cases p; simp add: mk_def Content_init_def Let_def split: prod.splits)+

lemma mk_season_number:
  assumes "content_type (mk q p) = ''Season''" and "fst (snd p) \<noteq> ''Season''"
  shows "season_number (mk q p) \<noteq> None"
  using assms
  by (cases p) (auto simp: mk_def Content_init_def Let_def split: prod.splits option.splits)

lemma str_content_leaf:
  "content_type c \<noteq> ''Show'' \<Longrightarrow> str_content n h' c = str_content n h c"
  by (cases n) simp_all

lemma py_sorted_set:
  assumes "py_sorted ks = Inr keys"
  shows "set keys = set ks"
proof (cases "length ks \<le> 1")
  case True
  then show ?thesis using assms by (simp add: py_sorted_def)
next
  case False
  then have n: "None \<notin> set ks" and k: "keys = map Some (sort (map the ks))"
    using assms by (auto simp: py_sorted_def split: if_splits)
  have "Some ` the ` set ks = set ks"
  proof -
    have "\<And>x. x \<in> set ks \<Longrightarrow> Some (the x) = x" using n by (metis option.collapse)
    then show ?thesis by (force simp: image_iff)
  qed
  then show ?thesis by (simp add: k)
qed

lemma str_content_children_cong:
  assumes "\<forall>(k, b) \<in> set (sub_content c). h' ! b = h ! b \<and> content_type (h ! b) \<noteq> ''Show''"
  shows "str_content n h' c = str_content n h c"
proof (cases n)
  case 0
  then show ?thesis by simp
next
  case (Suc m)
  have one: "\<And>season. season \<in> fst ` set (sub_content c) \<Longrightarrow>
     str_content m h' (h' ! the (map_of (sub_content c) season))
       = str_content m h (h ! the (map_of (sub_content c) season))"
  proof -
    fix season assume "season \<in> fst ` set (sub_content c)"
    then obtain b where b: "map_of (sub_content c) season = Some b"
      by (metis domD dom_map_of_conv_image_fst)
    then have "(season, b) \<in> set (sub_content c)" by (rule map_of_SomeD)
    with assms have "h' ! b = h ! b" "content_type (h ! b) \<noteq> ''Show''" by auto
    then show "str_content m h' (h' ! the (map_of (sub_content c) season))
       = str_content m h (h ! the (map_of (sub_content c) season))"
      using b str_content_leaf [of "h ! b" m h' h] by simp
  qed
  have all: "\<And>keys. py_sorted (map fst (sub_content c)) = Inr keys \<Longrightarrow>
     map (\<lambda>season. str_content m h' (h' ! the (map_of (sub_content c) season))) keys
       = map (\<lambda>season. str_content m h (h ! the (map_of (sub_content c) season))) keys"
  proof -
    fix keys assume "py_sorted (map fst (sub_content c)) = Inr keys"
    then have "set keys = set (map fst (sub_content c))" by (rule py_sorted_set)
    then have "set keys = fst ` set (sub_content c)" by simp
    then show "map (\<lambda>season. str_content m h' (h' ! the (map_of (sub_content c) season))) keys
       = map (\<lambda>season. str_content m h (h ! the (map_of (sub_content c) season))) keys"
      using one by (intro map_cong) auto
  qed
  show ?thesis unfolding Suc str_content.simps
    by (auto simp: Let_def all split: sum.splits)
qed

lemma print_groups_append_season:
  "print_groups n h (xs @ [(''Season'', b)]) = print_groups n h xs"
  by (induction xs) (auto split: sum.splits)

lemma print_groups_cong:
  assumes "\<forall>(k, as) \<in> set xs. k \<noteq> ''Season'' \<longrightarrow>
             map (\<lambda>a. str_content n h' (h' ! a)) as = map (\<lambda>a. str_content n h (h ! a)) as"
  shows "print_groups n h' xs = print_groups n h xs"
  using assms
proof (induction xs)
  case Nil
  then show ?case by simp
next
  case (Cons x xs)
  obtain k as where x: "x = (k, as)" by (cases x)
  from Cons.prems have t: "print_groups n h' xs = print_groups n h xs"
    by (intro Cons.IH) auto
  show ?case
  proof (cases "length as = 0 \<or> k = ''Season''")
    case True
    then show ?thesis using t x by auto
  next
    case False
    have m: "map (\<lambda>a. str_content n h' (h' ! a)) as = map (\<lambda>a. str_content n h (h ! a)) as"
      using False Cons.prems x by auto
    show ?thesis using False by (simp add: x m t split: sum.splits)
  qed
qed

lemma run_child:
  assumes "run q ps = Inr st" and "\<forall>p \<in> set ps. fst (snd p) \<noteq> ''Season''"
    and "i < length ps" and "(k, b) \<in> set (sub_content (store st ! i))"
  shows "b < length ps" and "k \<noteq> None" and "content_type (store st ! b) = ''Season''"
    and "season_number (store st ! b) = k"
proof -
  have l: "length (store st) = length ps" by (rule run_nth(2) [OF assms(1,3)])
  have kid: "kid_ok (store st) (store st ! i)" by (rule run_kid_ok [OF assms(1,3)])
  have "\<forall>(k, b) \<in> set (sub_content (store st ! i)).
          b < length (store st) \<and> content_type (store st ! i) = ''Show''
          \<and> content_type (store st ! b) = ''Season'' \<and> season_number (store st ! b) = k"
    using kid unfolding kid_ok_def by (rule conjunct2)
  with assms(4) have b: "b < length ps" "content_type (store st ! b) = ''Season''"
      "season_number (store st ! b) = k"
    using l by auto
  from run_nth(1) [OF assms(1) b(1)] b(2,3)
  have m: "content_type (mk q (ps ! b)) = ''Season''" "season_number (mk q (ps ! b)) = k"
    by (simp_all add: imm_eq_iff)
  have "fst (snd (ps ! b)) \<noteq> ''Season''" using assms(2) b(1) by simp
  from mk_season_number [OF m(1) this] m(2) show "k \<noteq> None" by simp
  from b show "b < length ps" "content_type (store st ! b) = ''Season''"
      "season_number (store st ! b) = k" by simp_all
qed

lemma run_show_renders:
  assumes "run q ps = Inr st" and "\<forall>p \<in> set ps. fst (snd p) \<noteq> ''Season''"
    and "i < length ps" and "content_type (store st ! i) = ''Show''"
  shows "\<exists>s. str_content (Suc (Suc n)) (store st) (store st ! i) = Inr s"
proof (cases "sub_content (store st ! i) = []")
  case True
  then show ?thesis using assms(4) by (simp add: Let_def)
next
  case False
  have "\<forall>(k, b) \<in> set (sub_content (store st ! i)).
          k \<noteq> None \<and> content_type (store st ! b) = ''Season'' \<and> season_number (store st ! b) = k"
    using run_child [OF assms(1,2,3)] by blast
  from str_content_show_children [OF assms(4) False this] show ?thesis by blast
qed

section \<open>The order of a season and its show\<close>




























section \<open>What the season pattern matches\<close>

declare rmatch.simps [simp del]







lemma rmatch_Lit_append: "rmatch (Lit l) (p, l @ s, g) = [(p + length l, s, g)]"
  by (simp add: rmatch.simps)





































section \<open>The year pattern on a specials title\<close>

text \<open>
  C1: a raw title of the form \<open>X (YYYY)\<close>, \<open>X (YYYY) - Season N\<close> or
  \<open>X (YYYY) - Specials\<close> has the yearless title \<open>X\<close>, and any other title is its own
  yearless title.  The code at the title \<^verbatim>\<open>Bar (2020) - Specials\<close>: the record is a
  season with number 0, its yearless title is the whole raw title and not \<^verbatim>\<open>Bar\<close>,
  and so it is no child of the show \<^verbatim>\<open>Bar (2020)\<close>, whereas the first season of
  the same show has the yearless title \<^verbatim>\<open>Bar\<close> and is a child.
\<close>

theorem yearless_title_specials_not_stripped:
  "yearless_title (Content_init 4 ''Show'' ''Bar (2020) - Specials'' False) = ''Bar (2020) - Specials''
   \<and> content_type (Content_init 4 ''Show'' ''Bar (2020) - Specials'' False) = ''Season''
   \<and> season_number (Content_init 4 ''Show'' ''Bar (2020) - Specials'' False) = Some 0
   \<and> \<not> is_sub_content_of (Content_init 4 ''Show'' ''Bar (2020) - Specials'' False)
                          (Content_init 3 ''Show'' ''Bar (2020)'' False)
   \<and> yearless_title (Content_init 5 ''Show'' ''Bar (2020) - Season 1'' False) = ''Bar''
   \<and> is_sub_content_of (Content_init 5 ''Show'' ''Bar (2020) - Season 1'' False)
                        (Content_init 3 ''Show'' ''Bar (2020)'' False)"
  by code_simp

theorem yearless_title_specials_not_stripped_witness:
  "yearless_title (Content_init 4 ''Show'' ''Bar (2020) - Specials'' False) = ''Bar (2020) - Specials''"
  by (rule yearless_title_specials_not_stripped [THEN conjunct1])

section \<open>A record of an unknown type\<close>

text \<open>
  C2: a record whose content type is none of Collection, Movie, Show and Season is added
  to the registry without an error and is rendered as a bad-type placeholder.  The code
  at the record \<^verbatim>\<open>(1, 'Foo', 'Alpha')\<close> on the new registry: the subscript
  \<^verbatim>\<open>self.content[new.content_type]\<close> raises \<^verbatim>\<open>KeyError\<close>, so the record is
  never stored; the placeholder is what \<^verbatim>\<open>__str__\<close> alone gives for it.
\<close>

theorem add_content_unknown_type_KeyError:
  "add_content ContentList_init (Content_init 1 ''Foo'' ''Alpha'' False) = Inl (KeyError ''Foo'')
   \<and> run False [(1, ''Foo'', ''Alpha'')] = Inl (KeyError ''Foo'')
   \<and> str_content 1 [] (Content_init 1 ''Foo'' ''Alpha'' False)
       = Inr (''<Bad content type '' @ dq @ ''Foo'' @ dq @ ''>'')"
  by code_simp

theorem add_content_unknown_type_KeyError_witness:
  "add_content ContentList_init (Content_init 1 ''Foo'' ''Alpha'' False) = Inl (KeyError ''Foo'')"
  by (rule add_content_unknown_type_KeyError [THEN conjunct1])

section \<open>A season under two shows\<close>

text \<open>
  C3: in every registry reached by adding records, a season is a child of at most one
  show.  The code on the posters \<^verbatim>\<open>Bar (2020)\<close>, \<^verbatim>\<open>Bar (2020) - Season 1\<close>,
  \<^verbatim>\<open>Bar (2020)\<close>: the season (address 1) is attached to the first show (address 0)
  when it arrives, and adopted by the second show (address 2) when that arrives, so it is
  a child of both.
\<close>

theorem season_child_of_two_shows:
  "(case run False [(1, ''Show'', ''Bar (2020)''), (2, ''Show'', ''Bar (2020) - Season 1''),
                    (3, ''Show'', ''Bar (2020)'')] of
      Inl e \<Rightarrow> None
    | Inr r \<Rightarrow> Some (map content_type (store r), map sub_content (store r), content r))
   = Some ([''Show'', ''Season'', ''Show''],
           [[(Some 1, 1)], [], [(Some 1, 1)]],
           [(''Collection'', []), (''Movie'', []), (''Show'', [0, 2]), (''Season'', [1])])"
  by code_simp

section \<open>A season and its show, in either order\<close>




section \<open>Records of the same title\<close>

text \<open>
  C5: of two records added to the same bucket with equal raw titles, the later one ends
  with \<open>use_year\<close> set, and the earlier one keeps the value it had.  For the registry
  \<open>st\<close> built from the posters \<open>ps\<close>, the record of poster \<open>i\<close> is the object at
  address \<open>i\<close>; its bucket is the list of the addresses of the records of its type; and
  its flag is set exactly when a poster before it has a record of the same type and the
  same raw title, whatever is added after it.
\<close>

theorem use_year_marks_later_duplicate:
  assumes "run q ps = Inr st" and "i < length ps"
  shows "title (store st ! i) = snd (snd (ps ! i))
     \<and> dict_get (content st) (content_type (store st ! i))
           = Inr (filter (\<lambda>j. content_type (store st ! j) = content_type (store st ! i)) [0 ..< length ps])
     \<and> use_year (store st ! i) =
         (\<exists>j < i. content_type (store st ! j) = content_type (store st ! i)
                   \<and> snd (snd (ps ! j)) = snd (snd (ps ! i)))"
proof -
  have l: "length (store st) = length ps" by (rule run_nth(2) [OF assms])
  have "uy_ok (store st)" using run_inv(1) [OF assms(1)] by (simp add: inv_def)
  then have "use_year (store st ! i) =
      (\<exists>j < i. content_type (store st ! j) = content_type (store st ! i)
                \<and> title (store st ! j) = title (store st ! i))"
    using assms(2) l by (simp add: uy_ok_def)
  moreover have "\<And>j. j \<le> i \<Longrightarrow> title (store st ! j) = snd (snd (ps ! j))"
    using run_title [OF assms(1)] assms(2) by simp
  ultimately have "use_year (store st ! i) =
         (\<exists>j < i. content_type (store st ! j) = content_type (store st ! i)
                   \<and> snd (snd (ps ! j)) = snd (snd (ps ! i)))"
    by (metis less_imp_le_nat order_refl)
  then show ?thesis using run_title [OF assms] run_buckets [OF assms] by simp
qed

theorem use_year_marks_later_duplicate_witness:
  "use_year (store (projr (run False [(1, ''Movie'', ''Foo''), (2, ''Movie'', ''Foo'')])) ! 1)
   \<and> \<not> use_year (store (projr (run False [(1, ''Movie'', ''Foo''), (2, ''Movie'', ''Foo'')])) ! 0)"
proof -
  let ?ps = "[(1, ''Movie'', ''Foo''), (2, ''Movie'', ''Foo'')] :: poster list"
  have r: "run False ?ps = Inr (projr (run False ?ps))" by code_simp
  have t: "content_type (store (projr (run False ?ps)) ! 0) = content_type (store (projr (run False ?ps)) ! 1)"
    by code_simp
  from use_year_marks_later_duplicate [OF r, of 1] t
  have 1: "use_year (store (projr (run False ?ps)) ! 1)" by simp
  from use_year_marks_later_duplicate [OF r, of 0]
  have 0: "\<not> use_year (store (projr (run False ?ps)) ! 0)" by simp
  from 1 0 show ?thesis by simp
qed

section \<open>Quoting\<close>

text \<open>
  C8: a record whose raw title contains \<^verbatim>\<open>": "\<close> is rendered with a quoted title
  whatever the always-quote flag \<open>q\<close> is, and \<open>must_quote\<close> keeps the value the
  constructor gave it.  In the registry built from the posters \<open>ps\<close>, \<open>must_quote\<close>
  of record \<open>i\<close> is \<open>q\<close> or the substring test on its raw title.  When the test
  holds, its final title is the raw or the yearless title between two quotation marks
  (the character \<^verbatim>\<open>0x22\<close>); \<^verbatim>\<open>__str__\<close> of a collection or a movie returns
  exactly the quoted title, a colon, a line feed and the poster line; \<^verbatim>\<open>__str__\<close>
  of a show, in a registry built from posters whose declared type is never
  \<^verbatim>\<open>Season\<close>, returns a string that starts with these; and whatever
  \<^verbatim>\<open>__str__\<close> returns for a collection, movie or show starts with the quoted
  title and a colon.  A season has no title line.
\<close>

theorem colon_title_always_quoted:
  assumes "run q ps = Inr st" and "i < length ps"
  shows "must_quote (store st ! i) = (q \<or> py_in '': '' (snd (snd (ps ! i))))
     \<and> (py_in '': '' (snd (snd (ps ! i))) \<longrightarrow>
          final_title (store st ! i)
            = CHR 0x22 # (if use_year (store st ! i) then snd (snd (ps ! i))
                          else yearless_title (store st ! i)) @ [CHR 0x22]
          \<and> (content_type (store st ! i) = ''Collection''
               \<or> content_type (store st ! i) = ''Movie'' \<longrightarrow>
              (\<forall>n. str_content (Suc n) (store st) (store st ! i)
                 = Inr (CHR 0x22 # (if use_year (store st ! i) then snd (snd (ps ! i))
                                    else yearless_title (store st ! i)) @ [CHR 0x22]
                        @ '':'' @ [CHR 0x0A]
                        @ ''  url_poster: https://theposterdb.com/api/assets/''
                        @ py_str_int (fst (ps ! i)))))
          \<and> (content_type (store st ! i) = ''Show''
               \<and> (\<forall>p \<in> set ps. fst (snd p) \<noteq> ''Season'') \<longrightarrow>
              (\<forall>n. \<exists>s. str_content (Suc (Suc n)) (store st) (store st ! i) = Inr s
                 \<and> prefix (CHR 0x22 # (if use_year (store st ! i) then snd (snd (ps ! i))
                                        else yearless_title (store st ! i)) @ [CHR 0x22]
                            @ '':'' @ [CHR 0x0A]
                            @ ''  url_poster: https://theposterdb.com/api/assets/''
                            @ py_str_int (fst (ps ! i))) s))
          \<and> (\<forall>n s. str_content n (store st) (store st ! i) = Inr s
                \<and> (content_type (store st ! i) = ''Collection''
                    \<or> content_type (store st ! i) = ''Movie''
                    \<or> content_type (store st ! i) = ''Show'') \<longrightarrow>
                prefix (CHR 0x22 # (if use_year (store st ! i) then snd (snd (ps ! i))
                                    else yearless_title (store st ! i)) @ [CHR 0x22]
                        @ '':'' @ [CHR 0x0A]) s))"
proof -
  let ?c = "store st ! i"
  let ?T = "if use_year ?c then snd (snd (ps ! i)) else yearless_title ?c"
  have m: "must_quote ?c = (q \<or> py_in '': '' (snd (snd (ps ! i))))"
    using run_nth(1) [OF assms] by (simp add: imm_eq_iff mk_must_quote)
  have t: "title ?c = snd (snd (ps ! i))" by (rule run_title [OF assms])
  have u: "url ?c = ''https://theposterdb.com/api/assets/'' @ py_str_int (fst (ps ! i))"
    using run_nth(1) [OF assms] by (simp add: imm_eq_iff mk_poster_id POSTER_URL_def)
  have f: "py_in '': '' (snd (snd (ps ! i))) \<Longrightarrow> final_title ?c = CHR 0x22 # ?T @ [CHR 0x22]"
    using m t by (simp add: final_title_def dq_def)
  have leaf: "py_in '': '' (snd (snd (ps ! i))) \<Longrightarrow>
      content_type ?c = ''Collection'' \<or> content_type ?c = ''Movie'' \<Longrightarrow>
      str_content (Suc n) (store st) ?c
        = Inr (CHR 0x22 # ?T @ [CHR 0x22] @ '':'' @ [CHR 0x0A]
               @ ''  url_poster: https://theposterdb.com/api/assets/''
               @ py_str_int (fst (ps ! i)))" for n
  proof -
    assume c: "py_in '': '' (snd (snd (ps ! i)))"
      and k: "content_type ?c = ''Collection'' \<or> content_type ?c = ''Movie''"
    have "str_content (Suc n) (store st) ?c
        = Inr (final_title ?c @ '':'' @ nl @ ''  url_poster: '' @ url ?c)"
      using k by simp
    then show ?thesis unfolding f [OF c] u nl_def by simp
  qed
  have pre: "py_in '': '' (snd (snd (ps ! i))) \<Longrightarrow>
      str_content n (store st) ?c = Inr s \<Longrightarrow>
      content_type ?c = ''Collection'' \<or> content_type ?c = ''Movie'' \<or> content_type ?c = ''Show'' \<Longrightarrow>
      prefix (CHR 0x22 # ?T @ [CHR 0x22] @ '':'' @ [CHR 0x0A]) s" for n s
  proof -
    assume c: "py_in '': '' (snd (snd (ps ! i)))"
      and s: "str_content n (store st) ?c = Inr s"
      and k: "content_type ?c = ''Collection'' \<or> content_type ?c = ''Movie'' \<or> content_type ?c = ''Show''"
    have "prefix (final_title ?c @ '':'' @ nl) s" by (rule prefix_str_content [OF s k])
    then show ?thesis unfolding f [OF c] nl_def by simp
  qed
  have show_: "py_in '': '' (snd (snd (ps ! i))) \<Longrightarrow>
      content_type ?c = ''Show'' \<Longrightarrow> \<forall>p \<in> set ps. fst (snd p) \<noteq> ''Season'' \<Longrightarrow>
      \<exists>s. str_content (Suc (Suc n)) (store st) ?c = Inr s
         \<and> prefix (CHR 0x22 # ?T @ [CHR 0x22] @ '':'' @ [CHR 0x0A]
                    @ ''  url_poster: https://theposterdb.com/api/assets/''
                    @ py_str_int (fst (ps ! i))) s" for n
  proof -
    assume c: "py_in '': '' (snd (snd (ps ! i)))"
      and k: "content_type ?c = ''Show''"
      and d: "\<forall>p \<in> set ps. fst (snd p) \<noteq> ''Season''"
    from run_show_renders [OF assms(1) d assms(2) k, of n] obtain s where
      s: "str_content (Suc (Suc n)) (store st) ?c = Inr s" by blast
    have "prefix (final_title ?c @ '':'' @ nl @ ''  url_poster: '' @ url ?c) s"
      using s k by (auto simp: Let_def split: if_splits sum.splits)
    then have "prefix (CHR 0x22 # ?T @ [CHR 0x22] @ '':'' @ [CHR 0x0A]
                    @ ''  url_poster: https://theposterdb.com/api/assets/''
                    @ py_str_int (fst (ps ! i))) s"
      unfolding f [OF c] u nl_def by simp
    with s show ?thesis by blast
  qed
  show ?thesis
  proof (intro conjI impI allI)
    show "must_quote ?c = (q \<or> py_in '': '' (snd (snd (ps ! i))))" by (rule m)
  next
    assume "py_in '': '' (snd (snd (ps ! i)))"
    then show "final_title ?c = CHR 0x22 # ?T @ [CHR 0x22]" by (rule f)
  next
    fix n
    assume "py_in '': '' (snd (snd (ps ! i)))"
      and "content_type ?c = ''Collection'' \<or> content_type ?c = ''Movie''"
    then show "str_content (Suc n) (store st) ?c
        = Inr (CHR 0x22 # ?T @ [CHR 0x22] @ '':'' @ [CHR 0x0A]
               @ ''  url_poster: https://theposterdb.com/api/assets/''
               @ py_str_int (fst (ps ! i)))"
      by (rule leaf)
  next
    fix n
    assume c: "py_in '': '' (snd (snd (ps ! i)))"
      and k: "content_type ?c = ''Show'' \<and> (\<forall>p \<in> set ps. fst (snd p) \<noteq> ''Season'')"
    from show_ [OF c conjunct1 [OF k] conjunct2 [OF k], of n]
    show "\<exists>s. str_content (Suc (Suc n)) (store st) ?c = Inr s
         \<and> prefix (CHR 0x22 # ?T @ [CHR 0x22] @ '':'' @ [CHR 0x0A]
                    @ ''  url_poster: https://theposterdb.com/api/assets/''
                    @ py_str_int (fst (ps ! i))) s" .
  next
    fix n s
    assume c: "py_in '': '' (snd (snd (ps ! i)))"
      and k: "str_content n (store st) ?c = Inr s
                \<and> (content_type ?c = ''Collection'' \<or> content_type ?c = ''Movie''
                    \<or> content_type ?c = ''Show'')"
    from pre [OF c conjunct1 [OF k] conjunct2 [OF k]]
    show "prefix (CHR 0x22 # ?T @ [CHR 0x22] @ '':'' @ [CHR 0x0A]) s" .
  qed
qed

theorem colon_title_always_quoted_witness:
  "str_content 1 (store (projr (run False [(7, ''Movie'', ''Alien: Covenant (2017)'')])))
        (store (projr (run False [(7, ''Movie'', ''Alien: Covenant (2017)'')])) ! 0)
     = Inr (CHR 0x22 # ''Alien: Covenant'' @ [CHR 0x22] @ '':'' @ [CHR 0x0A]
            @ ''  url_poster: https://theposterdb.com/api/assets/7'')
   \<and> (\<exists>s. str_content 2
        (store (projr (run False [(8, ''Show'', ''Star Trek: Picard (2020)''),
                                  (9, ''Show'', ''Star Trek: Picard (2020) - Season 1'')])))
        (store (projr (run False [(8, ''Show'', ''Star Trek: Picard (2020)''),
                                  (9, ''Show'', ''Star Trek: Picard (2020) - Season 1'')])) ! 0)
        = Inr s
      \<and> prefix (CHR 0x22 # ''Star Trek: Picard'' @ [CHR 0x22] @ '':'' @ [CHR 0x0A]
                @ ''  url_poster: https://theposterdb.com/api/assets/8'') s)"
proof -
  let ?ps = "[(7, ''Movie'', ''Alien: Covenant (2017)'')] :: poster list"
  let ?st = "projr (run False ?ps)"
  have r: "run False ?ps = Inr ?st" by code_simp
  have c: "py_in '': '' (snd (snd (?ps ! 0)))" by code_simp
  have k: "content_type (store ?st ! 0) = ''Collection'' \<or> content_type (store ?st ! 0) = ''Movie''"
    by code_simp
  have u: "\<not> use_year (store ?st ! 0)" by code_simp
  have y: "yearless_title (store ?st ! 0) = ''Alien: Covenant''" by code_simp
  have n: "py_str_int (fst (?ps ! 0)) = ''7''" by code_simp
  have i: "0 < length ?ps" by simp
  note a = colon_title_always_quoted [OF r i, THEN conjunct2, THEN mp, OF c,
      THEN conjunct2, THEN conjunct1, THEN mp, OF k, THEN spec, of 0]
  have 1: "str_content 1 (store ?st) (store ?st ! 0)
     = Inr (CHR 0x22 # ''Alien: Covenant'' @ [CHR 0x22] @ '':'' @ [CHR 0x0A]
            @ ''  url_poster: https://theposterdb.com/api/assets/7'')"
    using a u y n by (simp del: str_content.simps)
  let ?qs = "[(8, ''Show'', ''Star Trek: Picard (2020)''),
              (9, ''Show'', ''Star Trek: Picard (2020) - Season 1'')] :: poster list"
  let ?su = "projr (run False ?qs)"
  have r2: "run False ?qs = Inr ?su" by code_simp
  have c2: "py_in '': '' (snd (snd (?qs ! 0)))" by code_simp
  have k2: "content_type (store ?su ! 0) = ''Show'' \<and> (\<forall>p \<in> set ?qs. fst (snd p) \<noteq> ''Season'')"
    by code_simp
  have u2: "\<not> use_year (store ?su ! 0)" by code_simp
  have y2: "yearless_title (store ?su ! 0) = ''Star Trek: Picard''" by code_simp
  have n2: "py_str_int (fst (?qs ! 0)) = ''8''" by code_simp
  have i2: "0 < length ?qs" by simp
  note b = colon_title_always_quoted [OF r2 i2, THEN conjunct2, THEN mp, OF c2,
      THEN conjunct2, THEN conjunct2, THEN conjunct1, THEN mp, OF k2, THEN spec, of 0]
  have 2: "\<exists>s. str_content 2 (store ?su) (store ?su ! 0) = Inr s
      \<and> prefix (CHR 0x22 # ''Star Trek: Picard'' @ [CHR 0x22] @ '':'' @ [CHR 0x0A]
                @ ''  url_poster: https://theposterdb.com/api/assets/8'') s"
    using b u2 y2 n2 by (simp del: str_content.simps add: numeral_2_eq_2)
  from 1 2 show ?thesis by simp
qed

section \<open>Seasons of a show in the output\<close>

text \<open>
  C7: a show with children is rendered with its season lines in ascending order of the
  season number, whatever the order in which the seasons were attached, each line being
  \<^verbatim>\<open>N: {url_poster: https://theposterdb.com/api/assets/ID}\<close>.  For the registry built
  from posters whose declared type is never \<^verbatim>\<open>Season\<close> (the scraper's types are
  Collection, Show and Movie), and with room for two nested calls of \<^verbatim>\<open>__str__\<close>,
  the show at address \<open>i\<close> is rendered as its title and poster lines followed by one
  line per key of its dict, the keys \<open>ks\<close> strictly ascending, each line built from the
  poster id of the child stored under the key.
\<close>

theorem show_seasons_sorted:
  assumes "run q ps = Inr st" and "\<forall>p \<in> set ps. fst (snd p) \<noteq> ''Season''"
    and "i < length ps" and "content_type (store st ! i) = ''Show''"
    and "sub_content (store st ! i) \<noteq> []"
  shows "\<exists>ks. sorted_wrt (<) ks
     \<and> set ks = {k. Some k \<in> fst ` set (sub_content (store st ! i))}
     \<and> str_content (Suc (Suc n)) (store st) (store st ! i) =
         Inr (final_title (store st ! i) @ '':'' @ nl
              @ ''  url_poster: https://theposterdb.com/api/assets/'' @ py_str_int (fst (ps ! i)) @ nl
              @ ''  seasons:'' @ nl @ ''    '' @ py_join (nl @ ''    '')
                 (map (\<lambda>k. py_str_int k @ '': '' @ ''{url_poster: ''
                         @ ''https://theposterdb.com/api/assets/''
                         @ py_str_int (fst (ps ! the (map_of (sub_content (store st ! i)) (Some k))))
                         @ ''}'') ks))"
proof -
  let ?h = "store st"
  let ?sc = "sub_content (?h ! i)"
  let ?ks = "sort (map (the \<circ> fst) ?sc)"
  have l: "length ?h = length ps" by (rule run_nth(2) [OF assms(1,3)])
  have im: "\<And>j. j < length ps \<Longrightarrow> imm (?h ! j) = imm (mk q (ps ! j))"
    by (rule run_nth(1) [OF assms(1)])
  have "kids_ok ?h" using run_inv(1) [OF assms(1)] by (simp add: inv_def)
  then have kid: "kid_ok ?h (?h ! i)" using assms(3) l by (simp add: kids_ok_def)
  have child: "\<And>k b. (k, b) \<in> set ?sc \<Longrightarrow>
     b < length ps \<and> k \<noteq> None \<and> content_type (?h ! b) = ''Season'' \<and> season_number (?h ! b) = k
     \<and> url (?h ! b) = POSTER_URL (fst (ps ! b))"
  proof -
    fix k b assume "(k, b) \<in> set ?sc"
    with kid have b: "b < length ps" "content_type (?h ! b) = ''Season''" "season_number (?h ! b) = k"
      using l by (auto simp: kid_ok_def)
    from im [OF b(1)] b(2,3) have m: "content_type (mk q (ps ! b)) = ''Season''"
      "season_number (mk q (ps ! b)) = k" "url (?h ! b) = url (mk q (ps ! b))"
      by (simp_all add: imm_eq_iff)
    have "fst (snd (ps ! b)) \<noteq> ''Season''" using assms(2) b(1) by simp
    from mk_season_number [OF m(1) this] m(2) have "k \<noteq> None" by simp
    then show "b < length ps \<and> k \<noteq> None \<and> content_type (?h ! b) = ''Season'' \<and> season_number (?h ! b) = k
     \<and> url (?h ! b) = POSTER_URL (fst (ps ! b))"
      using b m(3) by (simp add: mk_poster_id)
  qed
  have hyp: "\<forall>(k, b) \<in> set ?sc. k \<noteq> None \<and> content_type (?h ! b) = ''Season'' \<and> season_number (?h ! b) = k"
    using child by auto
  have d: "distinct (map fst ?sc)" using kid by (simp add: kid_ok_def)
  have inj: "inj_on the (set (map fst ?sc))"
  proof (rule inj_onI)
    fix x y assume "x \<in> set (map fst ?sc)" "y \<in> set (map fst ?sc)" "the x = the y"
    moreover have "\<And>z. z \<in> set (map fst ?sc) \<Longrightarrow> z \<noteq> None" using child by force
    ultimately show "x = y" by (metis option.expand)
  qed
  have "distinct (map the (map fst ?sc))"
    by (subst distinct_map) (use d inj in blast)
  then have dk: "distinct ?ks" by (simp add: comp_def)
  have 1: "sorted_wrt (<) ?ks" using dk by (simp add: strict_sorted_iff)
  have 2: "set ?ks = {k. Some k \<in> fst ` set ?sc}"
  proof -
    have "\<And>z. z \<in> fst ` set ?sc \<Longrightarrow> z \<noteq> None" using child by force
    then show ?thesis by (force simp: image_iff)
  qed
  have u: "url (?h ! i) = POSTER_URL (fst (ps ! i))"
    using im [OF assms(3)] by (simp add: imm_eq_iff mk_poster_id)
  have lines: "map (\<lambda>k. py_str_int k @ '': '' @ ''{url_poster: ''
                         @ url (?h ! the (map_of ?sc (Some k))) @ ''}'') ?ks
      = map (\<lambda>k. py_str_int k @ '': '' @ ''{url_poster: ''
                         @ ''https://theposterdb.com/api/assets/''
                         @ py_str_int (fst (ps ! the (map_of ?sc (Some k))))
                         @ ''}'') ?ks"
  proof (rule map_cong [OF refl])
    fix k assume "k \<in> set ?ks"
    then have "Some k \<in> fst ` set ?sc" using 2 by simp
    then obtain b where b: "map_of ?sc (Some k) = Some b"
      by (metis domD dom_map_of_conv_image_fst)
    then have "(Some k, b) \<in> set ?sc" by (rule map_of_SomeD)
    from child [OF this] b
    show "py_str_int k @ '': '' @ ''{url_poster: '' @ url (?h ! the (map_of ?sc (Some k))) @ ''}''
        = py_str_int k @ '': '' @ ''{url_poster: '' @ ''https://theposterdb.com/api/assets/''
                         @ py_str_int (fst (ps ! the (map_of ?sc (Some k)))) @ ''}''"
      by (simp add: POSTER_URL_def)
  qed
  have 3: "str_content (Suc (Suc n)) ?h (?h ! i) =
         Inr (final_title (?h ! i) @ '':'' @ nl
              @ ''  url_poster: https://theposterdb.com/api/assets/'' @ py_str_int (fst (ps ! i)) @ nl
              @ ''  seasons:'' @ nl @ ''    '' @ py_join (nl @ ''    '')
                 (map (\<lambda>k. py_str_int k @ '': '' @ ''{url_poster: ''
                         @ ''https://theposterdb.com/api/assets/''
                         @ py_str_int (fst (ps ! the (map_of ?sc (Some k))))
                         @ ''}'') ?ks))"
    unfolding str_content_show_children [OF assms(4,5) hyp] lines u by (simp add: POSTER_URL_def)
  from 1 2 3 show ?thesis by blast
qed

theorem show_seasons_sorted_witness:
  "str_content 2
     (store (projr (run False [(1, ''Show'', ''Bar (2020)''), (2, ''Show'', ''Bar (2020) - Season 2''),
                               (3, ''Show'', ''Bar (2020) - Season 0''),
                               (4, ''Show'', ''Bar (2020) - Season 1'')])))
     (store (projr (run False [(1, ''Show'', ''Bar (2020)''), (2, ''Show'', ''Bar (2020) - Season 2''),
                               (3, ''Show'', ''Bar (2020) - Season 0''),
                               (4, ''Show'', ''Bar (2020) - Season 1'')])) ! 0)
    = Inr (''Bar:'' @ nl @ ''  url_poster: https://theposterdb.com/api/assets/1'' @ nl
           @ ''  seasons:'' @ nl
           @ ''    0: {url_poster: https://theposterdb.com/api/assets/3}'' @ nl
           @ ''    1: {url_poster: https://theposterdb.com/api/assets/4}'' @ nl
           @ ''    2: {url_poster: https://theposterdb.com/api/assets/2}'')
   \<and> map fst (sub_content
          (store (projr (run False [(1, ''Show'', ''Bar (2020)''), (2, ''Show'', ''Bar (2020) - Season 2''),
                               (3, ''Show'', ''Bar (2020) - Season 0''),
                               (4, ''Show'', ''Bar (2020) - Season 1'')])) ! 0))
       = [Some 2, Some 0, Some 1]
   \<and> (\<exists>ks. sorted_wrt (<) ks \<and> set ks = {0, 1, 2 :: int})"
proof -
  let ?ps = "[(1, ''Show'', ''Bar (2020)''), (2, ''Show'', ''Bar (2020) - Season 2''),
              (3, ''Show'', ''Bar (2020) - Season 0''), (4, ''Show'', ''Bar (2020) - Season 1'')] :: poster list"
  let ?st = "projr (run False ?ps)"
  have r: "run False ?ps = Inr ?st" by code_simp
  have d: "\<forall>p \<in> set ?ps. fst (snd p) \<noteq> ''Season''" by simp
  have t: "content_type (store ?st ! 0) = ''Show''" by code_simp
  have k: "map fst (sub_content (store ?st ! 0)) = [Some 2, Some 0, Some 1]" by code_simp
  then have s: "sub_content (store ?st ! 0) \<noteq> []" by auto
  have e: "str_content 2 (store ?st) (store ?st ! 0)
    = Inr (''Bar:'' @ nl @ ''  url_poster: https://theposterdb.com/api/assets/1'' @ nl
           @ ''  seasons:'' @ nl
           @ ''    0: {url_poster: https://theposterdb.com/api/assets/3}'' @ nl
           @ ''    1: {url_poster: https://theposterdb.com/api/assets/4}'' @ nl
           @ ''    2: {url_poster: https://theposterdb.com/api/assets/2}'')"
    by code_simp
  have f: "fst ` set (sub_content (store ?st ! 0)) = {Some 2, Some 0, Some 1}"
    using arg_cong [OF k, of set] by simp
  from show_seasons_sorted [OF r d _ t s, of 0] obtain ks where
    "sorted_wrt (<) ks" "set ks = {k. Some k \<in> fst ` set (sub_content (store ?st ! 0))}"
    by auto
  then have "sorted_wrt (<) ks \<and> set ks = {0, 1, 2}" unfolding f by auto
  then show ?thesis using e k by blast
qed

section \<open>One child per season number\<close>

text \<open>
  C9: a show holds at most one season per season number; a season attached under a number
  that is taken replaces the earlier one, which is then no part of what the show renders.
  In the registry built from the posters \<open>ps\<close> the keys of every dict are distinct;
  after \<^verbatim>\<open>add_sub_content\<close> the child's number maps to that child; and attaching
  \<open>b\<close> and then \<open>a\<close> of the same number leaves the store as if \<open>b\<close> had never been
  attached.
\<close>

theorem one_child_per_season_number:
  assumes "run q ps = Inr st" and "i < length ps"
  shows "distinct (map fst (sub_content (store st ! i)))
     \<and> (\<forall>a. map_of (sub_content (add_sub_content (store st) i a ! i))
                 (season_number (store st ! a)) = Some a)
     \<and> (\<forall>h p a b. p \<noteq> a \<and> season_number (h ! a) = season_number (h ! b) \<longrightarrow>
           add_sub_content (add_sub_content h p b) p a = add_sub_content h p a)"
proof (intro conjI allI impI)
  show "distinct (map fst (sub_content (store st ! i)))"
    using run_kid_ok [OF assms] by (simp add: kid_ok_def)
next
  fix a
  have "i < length (store st)" using run_nth(2) [OF assms] assms(2) by simp
  then show "map_of (sub_content (add_sub_content (store st) i a ! i))
                 (season_number (store st ! a)) = Some a"
    by (rule add_sub_content_lookup)
next
  fix h :: "Content list" and p a b
  assume "p \<noteq> a \<and> season_number (h ! a) = season_number (h ! b)"
  then show "add_sub_content (add_sub_content h p b) p a = add_sub_content h p a"
    by (simp add: add_sub_content_twice)
qed

theorem one_child_per_season_number_witness:
  "map sub_content (store (projr (run False
      [(1, ''Show'', ''Bar (2020)''), (2, ''Show'', ''Bar (2020) - Season 1''),
       (3, ''Show'', ''Bar (2020) - Season 1'')])))
     = [[(Some 1, 2)], [], []]
   \<and> ContentList_print 2 (projr (run False
      [(1, ''Show'', ''Bar (2020)''), (2, ''Show'', ''Bar (2020) - Season 1''),
       (3, ''Show'', ''Bar (2020) - Season 1'')]))
     = Inr [header ''Show'',
            ''Bar:'' @ nl @ ''  url_poster: https://theposterdb.com/api/assets/1'' @ nl
              @ ''  seasons:'' @ nl @ ''    1: {url_poster: https://theposterdb.com/api/assets/3}'']
   \<and> distinct (map fst (sub_content (store (projr (run False
      [(1, ''Show'', ''Bar (2020)''), (2, ''Show'', ''Bar (2020) - Season 1''),
       (3, ''Show'', ''Bar (2020) - Season 1'')])) ! 0)))"
proof -
  let ?ps = "[(1, ''Show'', ''Bar (2020)''), (2, ''Show'', ''Bar (2020) - Season 1''),
       (3, ''Show'', ''Bar (2020) - Season 1'')] :: poster list"
  have r: "run False ?ps = Inr (projr (run False ?ps))" by code_simp
  have a: "map sub_content (store (projr (run False ?ps))) = [[(Some 1, 2)], [], []]"
    by code_simp
  have b: "ContentList_print 2 (projr (run False ?ps))
     = Inr [header ''Show'',
            ''Bar:'' @ nl @ ''  url_poster: https://theposterdb.com/api/assets/1'' @ nl
              @ ''  seasons:'' @ nl @ ''    1: {url_poster: https://theposterdb.com/api/assets/3}'']"
    by code_simp
  from one_child_per_season_number [OF r, of 0]
  have "distinct (map fst (sub_content (store (projr (run False ?ps)) ! 0)))" by simp
  then show ?thesis using a b by simp
qed

section \<open>Seasons without a show\<close>

text \<open>
  C10: a season that is the child of no show gives no line of the output, since the
  Season bucket is skipped.  In the registry built from the posters \<open>ps\<close>, if the
  record at address \<open>i\<close> is a season and no record has it as a child, then what
  \<^verbatim>\<open>print\<close> writes is the same whatever object stands at address \<open>i\<close>, and the
  same whatever list stands under the key \<^verbatim>\<open>Season\<close>.
\<close>

theorem orphan_season_not_printed:
  assumes "run q ps = Inr st" and "i < length ps"
    and "content_type (store st ! i) = ''Season''"
    and "\<forall>j < length ps. i \<notin> snd ` set (sub_content (store st ! j))"
  shows "(\<forall>c'. ContentList_print n (st\<lparr>store := (store st)[i := c']\<rparr>) = ContentList_print n st)
     \<and> (\<forall>xs. ContentList_print n (st\<lparr>content := AList.update ''Season'' xs (content st)\<rparr>)
               = ContentList_print n st)"
proof (intro conjI allI)
  let ?h = "store st"
  have l: "length ?h = length ps" by (rule run_nth(2) [OF assms(1,2)])
  have c: "content st = map (\<lambda>k. (k, bucket_of ?h k)) known_types"
    using run_inv(1) [OF assms(1)] by (simp add: inv_def buckets_ok_def)
  have kids: "kids_ok ?h" using run_inv(1) [OF assms(1)] by (simp add: inv_def)
  {
    fix c'
    let ?h' = "?h[i := c']"
    have top: "\<And>k a. k \<noteq> ''Season'' \<Longrightarrow> a \<in> set (bucket_of ?h k) \<Longrightarrow>
       str_content n ?h' (?h' ! a) = str_content n ?h (?h ! a)"
    proof -
      fix k a assume k: "k \<noteq> ''Season''" and "a \<in> set (bucket_of ?h k)"
      then have a: "a < length ?h" "content_type (?h ! a) = k" by (auto simp: set_bucket_of)
      with k assms(3) have ai: "a \<noteq> i" by auto
      have ka: "kid_ok ?h (?h ! a)" using kids a(1) by (simp add: kids_ok_def)
      have ni: "i \<notin> snd ` set (sub_content (?h ! a))" using assms(4) a(1) l by simp
      have "\<forall>x \<in> set (sub_content (?h ! a)).
          case x of (k, b) \<Rightarrow> ?h' ! b = ?h ! b \<and> content_type (?h ! b) \<noteq> ''Show''"
      proof
        fix x assume x: "x \<in> set (sub_content (?h ! a))"
        obtain k' b where kb: "x = (k', b)" by (cases x)
        from ka x kb have "content_type (?h ! b) = ''Season''"
          unfolding kid_ok_def by blast
        moreover have "b \<noteq> i" using ni x kb by force
        ultimately show "case x of (k, b) \<Rightarrow> ?h' ! b = ?h ! b \<and> content_type (?h ! b) \<noteq> ''Show''"
          by (simp add: kb)
      qed
      from str_content_children_cong [OF this] ai
      show "str_content n ?h' (?h' ! a) = str_content n ?h (?h ! a)" by simp
    qed
    have "print_groups n ?h' (map (\<lambda>k. (k, bucket_of ?h k)) known_types)
       = print_groups n ?h (map (\<lambda>k. (k, bucket_of ?h k)) known_types)"
    proof (rule print_groups_cong, intro ballI)
      fix x assume "x \<in> set (map (\<lambda>k. (k, bucket_of ?h k)) known_types)"
      then obtain k where x: "x = (k, bucket_of ?h k)" by auto
      have "k \<noteq> ''Season'' \<longrightarrow> map (\<lambda>a. str_content n ?h' (?h' ! a)) (bucket_of ?h k)
          = map (\<lambda>a. str_content n ?h (?h ! a)) (bucket_of ?h k)"
        using top by (intro impI map_cong) auto
      then show "case x of (k, as) \<Rightarrow> k \<noteq> ''Season'' \<longrightarrow>
             map (\<lambda>a. str_content n ?h' (?h' ! a)) as = map (\<lambda>a. str_content n ?h (?h ! a)) as"
        by (simp add: x)
    qed
    then show "ContentList_print n (st\<lparr>store := ?h'\<rparr>) = ContentList_print n st"
      by (simp add: ContentList_print_def c)
  }
  fix xs
  let ?three = "[(''Collection'', bucket_of ?h ''Collection''), (''Movie'', bucket_of ?h ''Movie''),
                 (''Show'', bucket_of ?h ''Show'')]"
  have a: "content st = ?three @ [(''Season'', bucket_of ?h ''Season'')]"
    by (simp add: c known_types_def)
  have b: "AList.update ''Season'' xs (content st) = ?three @ [(''Season'', xs)]"
    by (simp add: c known_types_def)
  have "print_groups n ?h (AList.update ''Season'' xs (content st)) = print_groups n ?h (content st)"
    unfolding b unfolding a by (simp only: print_groups_append_season)
  then show "ContentList_print n (st\<lparr>content := AList.update ''Season'' xs (content st)\<rparr>)
               = ContentList_print n st"
    by (simp add: ContentList_print_def)
qed

theorem orphan_season_not_printed_witness:
  "ContentList_print 2 (projr (run False [(1, ''Show'', ''Bar (2020)''),
                                         (2, ''Show'', ''Foo (2019) - Season 1'')]))
     = Inr [header ''Show'', ''Bar:'' @ nl @ ''  url_poster: https://theposterdb.com/api/assets/1'']
   \<and> ContentList_print 2 ((projr (run False [(1, ''Show'', ''Bar (2020)''),
                                         (2, ''Show'', ''Foo (2019) - Season 1'')]))
        \<lparr>store := (store (projr (run False [(1, ''Show'', ''Bar (2020)''),
                                         (2, ''Show'', ''Foo (2019) - Season 1'')])))
                   [1 := Content_init 9 ''Movie'' ''Other'' True]\<rparr>)
     = ContentList_print 2 (projr (run False [(1, ''Show'', ''Bar (2020)''),
                                         (2, ''Show'', ''Foo (2019) - Season 1'')]))"
proof -
  let ?ps = "[(1, ''Show'', ''Bar (2020)''), (2, ''Show'', ''Foo (2019) - Season 1'')] :: poster list"
  have r: "run False ?ps = Inr (projr (run False ?ps))" by code_simp
  have t: "content_type (store (projr (run False ?ps)) ! 1) = ''Season''" by code_simp
  have o: "\<forall>j < length ?ps. 1 \<notin> snd ` set (sub_content (store (projr (run False ?ps)) ! j))"
  proof (intro allI impI)
    fix j assume "j < length ?ps"
    then have "j = 0 \<or> j = 1" by auto
    moreover have "sub_content (store (projr (run False ?ps)) ! 0) = []" by code_simp
    moreover have "sub_content (store (projr (run False ?ps)) ! 1) = []" by code_simp
    ultimately show "1 \<notin> snd ` set (sub_content (store (projr (run False ?ps)) ! j))" by auto
  qed
  have p: "ContentList_print 2 (projr (run False ?ps))
     = Inr [header ''Show'', ''Bar:'' @ nl @ ''  url_poster: https://theposterdb.com/api/assets/1'']"
    by code_simp
  from orphan_season_not_printed [OF r _ t o, of 2] p show ?thesis by simp
qed

section \<open>The season suffix\<close>



end
